theory Spec2Isabelle
  imports Main
begin

section \<open>The object store\<close>

text \<open>
  The engine's scene graph is made of JavaScript objects that refer to each other:
  an entity holds the array of its children and a reference to its parent, a child
  can sit in several arrays at once, and \<open>removeChild\<close> and \<open>Destroy\<close> write through
  those references. The model therefore keeps an explicit store. An entity reference
  is a number, and the store maps every reference to the object behind it. A
  reference in JavaScript never dangles, so the store is total; an address that no
  constructor call has handed out yet holds the object the constructor would build
  there (\<open>new_Entity\<close>), which is what the next \<open>new Entity(name)\<close> returns.
\<close>

type_synonym eid = nat
type_synonym cid = nat

text \<open>
  A component class is either \<open>Object\<close> or a class declared with \<open>extends\<close>; the
  number tells classes with the same superclass apart. \<open>x instanceof T\<close> walks the
  prototype chain of \<open>x\<close>, that is the chain of superclasses of its constructor,
  and answers whether \<open>T\<close> is on it.
\<close>

datatype cls = Object | Class nat cls

fun on_prototype_chain :: "cls \<Rightarrow> cls \<Rightarrow> bool" where
  "on_prototype_chain Object T = (T = Object)"
| "on_prototype_chain (Class i super) T = (T = Class i super \<or> on_prototype_chain super T)"

text \<open>
  A component carries its class (\<open>component.constructor\<close>) and the back reference
  \<open>component.entity\<close>, which is \<open>undefined\<close> (\<open>None\<close>) until \<open>addComponent\<close> writes it.
\<close>

record Component =
  constructor :: cls
  entity :: "eid option"

text \<open>
  The fields of \<open>class Entity\<close> (src/basic/entity.js, lines 15-20). \<open>_parent\<close> is
  \<open>null\<close> (\<open>None\<close>) or an entity. \<open>_children\<close> and \<open>_components\<close> are arrays: the
  constructor assigns \<open>[]\<close> to both, the class has no setter for either, and every
  method mutates them in place, so an entity and its two arrays are one object of
  the store. (The guard \<open>if (this._children == null) this._children = []\<close> at the
  head of \<open>addChild\<close> can therefore never fire and has no counterpart below.)
\<close>

record Entity =
  name :: string
  children :: "eid list"
  parent :: "eid option"
  components :: "cid list"

definition new_Entity :: "string \<Rightarrow> Entity" where
  "new_Entity nm = \<lparr>name = nm, children = [], parent = None, components = []\<rparr>"

text \<open>
  What the entity code does to the outside: a warning written with \<open>console.warn\<close>,
  or a call of a lifecycle hook of a component. The trace of a store lists these
  events in the order they happened.
\<close>

datatype event = Warn string | Init_call cid | Update_call cid | Destroy_call cid

datatype error = TypeError

record world =
  ents :: "eid \<Rightarrow> Entity"
  comps :: "cid \<Rightarrow> Component"
  trace :: "event list"

definition set_parent :: "world \<Rightarrow> eid \<Rightarrow> eid option \<Rightarrow> world" where
  "set_parent w e p = w\<lparr>ents := (ents w)(e := (ents w e)\<lparr>parent := p\<rparr>)\<rparr>"

definition set_children :: "world \<Rightarrow> eid \<Rightarrow> eid list \<Rightarrow> world" where
  "set_children w e cs = w\<lparr>ents := (ents w)(e := (ents w e)\<lparr>children := cs\<rparr>)\<rparr>"

definition set_components :: "world \<Rightarrow> eid \<Rightarrow> cid list \<Rightarrow> world" where
  "set_components w e cs = w\<lparr>ents := (ents w)(e := (ents w e)\<lparr>components := cs\<rparr>)\<rparr>"

definition set_entity :: "world \<Rightarrow> cid \<Rightarrow> eid option \<Rightarrow> world" where
  "set_entity w c e = w\<lparr>comps := (comps w)(c := (comps w c)\<lparr>entity := e\<rparr>)\<rparr>"

definition console_warn :: "world \<Rightarrow> string \<Rightarrow> world" where
  "console_warn w msg = w\<lparr>trace := trace w @ [Warn msg]\<rparr>"

section \<open>Array primitives\<close>

text \<open>
  \<open>Array.prototype.findIndex\<close> scans from index 0 and returns the first index whose
  element passes the test, or \<open>-1\<close>.
\<close>

fun findIndex_from :: "nat \<Rightarrow> ('a \<Rightarrow> bool) \<Rightarrow> 'a list \<Rightarrow> int" where
  "findIndex_from k P [] = - 1"
| "findIndex_from k P (x # xs) = (if P x then int k else findIndex_from (Suc k) P xs)"

definition findIndex :: "('a \<Rightarrow> bool) \<Rightarrow> 'a list \<Rightarrow> int" where
  "findIndex P xs = findIndex_from 0 P xs"

text \<open>
  \<open>xs[i]\<close> for an integer \<open>i\<close>: the element, or \<open>undefined\<close> (\<open>None\<close>) when the array
  has no property \<open>i\<close>, which is the case for \<open>-1\<close> and for every index from the
  length on.
\<close>

definition array_get :: "'a list \<Rightarrow> int \<Rightarrow> 'a option" where
  "array_get xs i = (if 0 \<le> i \<and> i < int (length xs) then Some (xs ! nat i) else None)"

text \<open>\<open>xs.splice(i, 1)\<close> for an index \<open>i > -1\<close>: the array without position \<open>i\<close>.\<close>

definition splice1 :: "'a list \<Rightarrow> int \<Rightarrow> 'a list" where
  "splice1 xs i = take (nat i) xs @ drop (Suc (nat i)) xs"

section \<open>Components of an entity\<close>

definition instanceof :: "world \<Rightarrow> cid \<Rightarrow> cls \<Rightarrow> bool" where
  "instanceof w component T = on_prototype_chain (constructor (comps w component)) T"

text \<open>
  \<open>getComponent\<close> is \<open>Array.prototype.find\<close>, whose \<open>undefined\<close> is \<open>None\<close>;
  \<open>hasComponent\<close> is \<open>Array.prototype.some\<close>.
\<close>

definition getComponent :: "world \<Rightarrow> eid \<Rightarrow> cls \<Rightarrow> cid option" where
  "getComponent w this T = find (\<lambda>component. instanceof w component T) (components (ents w this))"

definition hasComponent :: "world \<Rightarrow> eid \<Rightarrow> cls \<Rightarrow> bool" where
  "hasComponent w this T = list_ex (\<lambda>component. instanceof w component T) (components (ents w this))"

definition removeComponent :: "world \<Rightarrow> eid \<Rightarrow> cls \<Rightarrow> world" where
  "removeComponent w this T =
     (let index = findIndex (\<lambda>component. instanceof w component T) (components (ents w this))
      in if index > - 1
         then set_components w this (splice1 (components (ents w this)) index)
         else console_warn w ''Component not found'')"

definition addComponent :: "world \<Rightarrow> eid \<Rightarrow> cid \<Rightarrow> world" where
  "addComponent w this component =
     (if \<not> hasComponent w this (constructor (comps w component))
      then (let w1 = set_entity w component (Some this)
            in set_components w1 this (components (ents w1 this) @ [component]))
      else console_warn w ''Component already attached'')"

section \<open>Children of an entity\<close>

text \<open>
  \<open>includes\<close> and the test \<open>c == child\<close> compare object references. In \<open>addChild\<close>
  the parent is written before the push, as in the source.
\<close>

definition addChild :: "world \<Rightarrow> eid \<Rightarrow> eid \<Rightarrow> world" where
  "addChild w this child =
     (if child \<notin> set (children (ents w this))
      then (let w1 = set_parent w child (Some this)
            in set_children w1 this (children (ents w1 this) @ [child]))
      else console_warn w ''Child already attached'')"

text \<open>
  \<open>removeChild\<close> reads \<open>this._children[index]\<close> and assigns to its \<open>parent\<close> before
  it looks at \<open>index\<close>. When the element is \<open>undefined\<close> the assignment throws a
  \<open>TypeError\<close> and nothing has been written yet.
\<close>

definition removeChild :: "world \<Rightarrow> eid \<Rightarrow> eid \<Rightarrow> error + world" where
  "removeChild w this child =
     (let index = findIndex (\<lambda>c. c = child) (children (ents w this))
      in case array_get (children (ents w this)) index of
           None \<Rightarrow> Inl TypeError
         | Some c \<Rightarrow>
             (let w1 = set_parent w c None
              in Inr (if index > - 1
                      then set_children w1 this (splice1 (children (ents w1 this)) index)
                      else w1)))"

section \<open>Queries over the direct children\<close>

text \<open>
  The callbacks of these \<open>forEach\<close> loops only read the store, so the array they run
  over stays as it is and the loop is a left fold over the children in order. The
  local variable the callback assigns to is the accumulator.

  In \<open>getComponentinChildren\<close> the statement \<open>return component\<close> stands inside the
  callback, where it ends that one call of the callback; \<open>forEach\<close> discards the
  value. The method itself ends with \<open>return null\<close>.
\<close>

definition getComponentinChildren :: "world \<Rightarrow> eid \<Rightarrow> cls \<Rightarrow> cid option" where
  "getComponentinChildren w this T =
     (let component = fold (\<lambda>child component.
                               if hasComponent w child T then getComponent w child T
                               else component)
                           (children (ents w this)) None
      in None)"

text \<open>
  The same method in the earlier copy of the class (the file whose \<open>Entity\<close>
  constructor takes \<open>children\<close> as a second argument): the loop is the same, without
  the inner \<open>return\<close>, and the method ends with \<open>return component\<close>.
\<close>

definition getComponentinChildren_earlier :: "world \<Rightarrow> eid \<Rightarrow> cls \<Rightarrow> cid option" where
  "getComponentinChildren_earlier w this T =
     (let component = fold (\<lambda>child component.
                               if hasComponent w child T then getComponent w child T
                               else component)
                           (children (ents w this)) None
      in component)"

text \<open>
  \<open>getComponentsInChildren\<close> pushes whatever \<open>getComponent\<close> returns, so the array it
  builds holds values that are a component or \<open>undefined\<close>.
\<close>

definition getComponentsInChildren :: "world \<Rightarrow> eid \<Rightarrow> cls \<Rightarrow> cid option list" where
  "getComponentsInChildren w this T =
     fold (\<lambda>child components.
             if hasComponent w child T then components @ [getComponent w child T]
             else components)
          (children (ents w this)) []"

section \<open>Lifecycle\<close>

text \<open>
  Modelled from the spec: the hooks \<open>Init\<close>, \<open>Update\<close> and \<open>Destroy\<close> of a component
  are methods of \<open>Component\<close> and its subclasses (components/component.js and the
  files beside it), whose code is not available here. The specification treats
  them as external callbacks that "must not add/remove children or components from
  within a lifecycle callback": a hook call is an event of the trace and leaves
  entities and components as they are.
\<close>

definition call_hook :: "(cid \<Rightarrow> event) \<Rightarrow> cid \<Rightarrow> world \<Rightarrow> world" where
  "call_hook hook component w = w\<lparr>trace := trace w @ [hook component]\<rparr>"

text \<open>
  \<open>this._components.forEach(component => component.Init())\<close>, and the same with
  \<open>Update\<close> or \<open>Destroy\<close>: the hook of each attached component, in array order. The
  hooks leave the array alone, so the loop is a fold over it.
\<close>

definition components_forEach :: "(cid \<Rightarrow> event) \<Rightarrow> eid \<Rightarrow> world \<Rightarrow> world" where
  "components_forEach hook this w = fold (call_hook hook) (components (ents w this)) w"

text \<open>
  \<open>this._children.forEach(callback)\<close> where the callback may change the store, and
  with it the array being walked. \<open>Array.prototype.forEach\<close> reads the length once,
  then for \<open>k = 0, 1, ...\<close> below that length looks whether the array still has an
  index \<open>k\<close> and, if so, calls the callback on the element that is there now. An
  exception in the callback ends the loop. The callback is an entity method that
  recurses, so it may also fail to return, which is \<open>None\<close>.
\<close>

function children_forEach ::
  "(world \<Rightarrow> eid \<Rightarrow> (error + world) option) \<Rightarrow> eid \<Rightarrow> nat \<Rightarrow> nat \<Rightarrow> world \<Rightarrow> (error + world) option"
where
  "children_forEach callback this len k w =
     (if k < len
      then (if k < length (children (ents w this))
            then (case callback w (children (ents w this) ! k) of
                    None \<Rightarrow> None
                  | Some (Inl e) \<Rightarrow> Some (Inl e)
                  | Some (Inr w') \<Rightarrow> children_forEach callback this len (Suc k) w')
            else children_forEach callback this len (Suc k) w)
      else Some (Inr w))"
  by pat_completeness auto
termination
  by (relation "measure (\<lambda>(callback, this, len, k, w). len - k)") auto

declare children_forEach.simps [simp del]

text \<open>
  \<open>Init\<close> and \<open>Destroy\<close> call themselves on the children, and nothing in the code
  bounds the depth: on a store where an entity is its own descendant they never
  return. The first argument is the number of nested calls allowed; \<open>None\<close> says
  that it did not suffice.
\<close>

primrec Init :: "nat \<Rightarrow> world \<Rightarrow> eid \<Rightarrow> (error + world) option" where
  "Init 0 w this = None"
| "Init (Suc fuel) w this =
     (let w1 = components_forEach Init_call this w
      in children_forEach (Init fuel) this (length (children (ents w1 this))) 0 w1)"

text \<open>
  \<open>Destroy\<close> ends with \<open>this._parent.removeChild(this)\<close>; on \<open>null\<close> that is a
  \<open>TypeError\<close>.
\<close>

primrec Destroy :: "nat \<Rightarrow> world \<Rightarrow> eid \<Rightarrow> (error + world) option" where
  "Destroy 0 w this = None"
| "Destroy (Suc fuel) w this =
     (let w1 = components_forEach Destroy_call this w
      in case children_forEach (Destroy fuel) this (length (children (ents w1 this))) 0 w1 of
           None \<Rightarrow> None
         | Some (Inl e) \<Rightarrow> Some (Inl e)
         | Some (Inr w2) \<Rightarrow>
             (case parent (ents w2 this) of
                None \<Rightarrow> Some (Inl TypeError)
              | Some p \<Rightarrow> Some (removeChild w2 p this)))"

section \<open>An example scene\<close>

text \<open>
  Three component classes, \<open>DerivedA\<close> and \<open>DerivedB\<close> both extending \<open>Base\<close> (in
  the engine \<open>Kinematic extends CollidableTransform\<close> is such a pair), and a store
  in which no entity has been touched yet. Component 10 is a \<open>Base\<close>, component 12
  a \<open>DerivedB\<close>, every other component a \<open>DerivedA\<close>.
\<close>

definition Base :: cls where "Base = Class 7 Object"
definition DerivedA :: cls where "DerivedA = Class 8 Base"
definition DerivedB :: cls where "DerivedB = Class 9 Base"

definition fresh_world :: world where
  "fresh_world =
     \<lparr>ents = (\<lambda>e. new_Entity ''Entity''),
      comps = (\<lambda>c. \<lparr>constructor = (if c = 10 then Base
                                    else if c = 12 then DerivedB
                                    else DerivedA),
                     entity = None\<rparr>),
      trace = []\<rparr>"

text \<open>
  The scene is built with the engine's own calls. Entity 20 is the root, 21 its
  only child, 22, 23 and 25 the children of 21 in that order, and 24 the child of
  23. Entity 21 holds component 10, 22 holds 11, 23 holds 12, 24 holds 13 and 25
  holds 14.
\<close>

definition scene_tree :: world where
  "scene_tree =
     addChild (addChild (addChild (addChild (addChild fresh_world 20 21) 21 22) 21 23) 21 25) 23 24"

definition scene :: world where
  "scene =
     addComponent (addComponent (addComponent (addComponent (addComponent
       scene_tree 21 10) 22 11) 23 12) 24 13) 25 14"

section \<open>What the specification says, as functions\<close>

text \<open>
  \<open>getComponentsInChildren\<close> in the specification's words: the matching component
  (the first one that passes the \<open>instanceof\<close> test) of each direct child that has
  one, in child order.
\<close>

definition matches_of_direct_children :: "world \<Rightarrow> eid \<Rightarrow> cls \<Rightarrow> cid list" where
  "matches_of_direct_children w n T =
     List.map_filter (\<lambda>child. find (\<lambda>c. instanceof w c T) (components (ents w child)))
       (children (ents w n))"

text \<open>
  A run of \<open>addComponent\<close> calls, each on some entity with some component, and the
  attached components of an entity that satisfy a capability, that have exactly a
  given class, and the classes of all of them in attachment order.
\<close>

definition addComponent_calls :: "(eid \<times> cid) list \<Rightarrow> world \<Rightarrow> world" where
  "addComponent_calls calls w = fold (\<lambda>(n, c) w. addComponent w n c) calls w"

definition satisfying :: "world \<Rightarrow> eid \<Rightarrow> cls \<Rightarrow> cid list" where
  "satisfying w n T = filter (\<lambda>c. instanceof w c T) (components (ents w n))"

definition of_class :: "world \<Rightarrow> eid \<Rightarrow> cls \<Rightarrow> cid list" where
  "of_class w n T = filter (\<lambda>c. constructor (comps w c) = T) (components (ents w n))"

definition classes_of :: "world \<Rightarrow> eid \<Rightarrow> cls list" where
  "classes_of w n = map (\<lambda>c. constructor (comps w c)) (components (ents w n))"

text \<open>
  The stores that \<open>addChild\<close> and \<open>removeChild\<close> can produce from entities as the
  constructor leaves them. A call of \<open>removeChild\<close> that throws produces no store.
\<close>

definition freshly_constructed :: "world \<Rightarrow> bool" where
  "freshly_constructed w \<longleftrightarrow> (\<forall>e. ents w e = new_Entity (name (ents w e)))"

inductive by_child_calls :: "world \<Rightarrow> bool" where
  start: "freshly_constructed w \<Longrightarrow> by_child_calls w"
| add: "by_child_calls w \<Longrightarrow> by_child_calls (addChild w n c)"
| remove: "by_child_calls w \<Longrightarrow> removeChild w n c = Inr w' \<Longrightarrow> by_child_calls w'"

text \<open>
  The edges of the scene graph, from an entity to each entry of its children array.
  An entity \<open>a\<close> is \<open>n\<close> itself or an ancestor of \<open>n\<close> when \<open>(a, n)\<close> is in the reflexive
  transitive closure.
\<close>

definition child_rel :: "world \<Rightarrow> (eid \<times> eid) set" where
  "child_rel w = {(n, c). c \<in> set (children (ents w n))}"

text \<open>
  The same stores when the caller of \<open>addChild\<close> is careful: the entity handed in
  has no parent and is neither the receiver nor one of its ancestors, or it is
  already a child of the receiver (and the call only warns).
\<close>

inductive by_tree_calls :: "world \<Rightarrow> bool" where
  start: "freshly_constructed w \<Longrightarrow> by_tree_calls w"
| add: "by_tree_calls w \<Longrightarrow> parent (ents w c) = None \<Longrightarrow> (c, n) \<notin> (child_rel w)\<^sup>* \<Longrightarrow>
        by_tree_calls (addChild w n c)"
| add_again: "by_tree_calls w \<Longrightarrow> c \<in> set (children (ents w n)) \<Longrightarrow>
        by_tree_calls (addChild w n c)"
| remove: "by_tree_calls w \<Longrightarrow> removeChild w n c = Inr w' \<Longrightarrow> by_tree_calls w'"

text \<open>
  The parts of the tree shape: no entity twice in one children array; an entity
  whose parent reference is \<open>n\<close> is in the children of \<open>n\<close>; every entry of the
  children of \<open>n\<close> has \<open>n\<close> as its parent reference; no entity in the children of two
  entities; no entity its own ancestor.
\<close>

definition no_repeats :: "world \<Rightarrow> bool" where
  "no_repeats w \<longleftrightarrow> (\<forall>n. distinct (children (ents w n)))"

definition parent_is_holder :: "world \<Rightarrow> bool" where
  "parent_is_holder w \<longleftrightarrow>
     (\<forall>n c. parent (ents w c) = Some n \<longrightarrow> c \<in> set (children (ents w n)))"

definition children_know_parent :: "world \<Rightarrow> bool" where
  "children_know_parent w \<longleftrightarrow>
     (\<forall>n c. c \<in> set (children (ents w n)) \<longrightarrow> parent (ents w c) = Some n)"

definition single_holder :: "world \<Rightarrow> bool" where
  "single_holder w \<longleftrightarrow>
     (\<forall>n m c. c \<in> set (children (ents w n)) \<and> c \<in> set (children (ents w m)) \<longrightarrow> n = m)"

definition tree_shape :: "world \<Rightarrow> bool" where
  "tree_shape w \<longleftrightarrow>
     children_know_parent w \<and> single_holder w \<and> no_repeats w \<and> acyclic (child_rel w)"

text \<open>
  Two more example stores. In \<open>tangle\<close> entity 22 is added to 20 and then to 21, and
  entity 23 is added to itself. \<open>pruned\<close> is the scene's tree after entity 21 has
  removed its child 23.
\<close>

definition tangle :: world where
  "tangle = addChild (addChild (addChild fresh_world 20 22) 21 22) 23 23"

definition pruned :: world where
  "pruned = (case removeChild scene_tree 21 23 of Inr w \<Rightarrow> w | Inl e \<Rightarrow> scene_tree)"

text \<open>
  The lifecycle in the specification's words. The specification speaks of a node,
  its components in attachment order and its children in child order, each child
  again such a node: a finite tree. \<open>unfolds_to w n t\<close> says that the store below
  entity \<open>n\<close> reads as the tree \<open>t\<close>, which is possible exactly when no entity
  below \<open>n\<close> is its own descendant. \<open>init_order\<close> and \<open>destroy_order\<close> are the hook
  calls the specification asks for: those of the node's own components first, then
  those of each child's subtree, child after child. \<open>depth\<close> counts the levels.
\<close>

datatype tree = Node "cid list" "tree list"

fun unfolds_to :: "world \<Rightarrow> eid \<Rightarrow> tree \<Rightarrow> bool"
  and unfolds_all :: "world \<Rightarrow> eid list \<Rightarrow> tree list \<Rightarrow> bool" where
  "unfolds_to w n (Node cs ts) \<longleftrightarrow>
     components (ents w n) = cs \<and> unfolds_all w (children (ents w n)) ts"
| "unfolds_all w [] [] \<longleftrightarrow> True"
| "unfolds_all w (c # cs) (t # ts) \<longleftrightarrow> unfolds_to w c t \<and> unfolds_all w cs ts"
| "unfolds_all w [] (t # ts) \<longleftrightarrow> False"
| "unfolds_all w (c # cs) [] \<longleftrightarrow> False"

fun init_order :: "tree \<Rightarrow> event list" where
  "init_order (Node cs ts) = map Init_call cs @ concat (map init_order ts)"

fun destroy_order :: "tree \<Rightarrow> event list" where
  "destroy_order (Node cs ts) = map Destroy_call cs @ concat (map destroy_order ts)"

fun depth :: "tree \<Rightarrow> nat" where
  "depth (Node cs ts) = Suc (foldr (\<lambda>t d. max (depth t) d) ts 0)"

text \<open>The scene below its root 20, and below entity 21.\<close>

definition subtree_21 :: tree where
  "subtree_21 = Node [10] [Node [11] [], Node [12] [Node [13] []], Node [14] []]"

definition scene_shape :: tree where
  "scene_shape = Node [] [subtree_21]"

section \<open>The example scene, evaluated\<close>

lemmas store_defs = set_parent_def set_children_def set_components_def set_entity_def console_warn_def
lemmas scene_defs = scene_def scene_tree_def fresh_world_def new_Entity_def addChild_def addComponent_def
  hasComponent_def instanceof_def Base_def DerivedA_def DerivedB_def store_defs

lemma scene_ents:
  "ents scene 20 = \<lparr>name = ''Entity'', children = [21], parent = None, components = []\<rparr>"
  "ents scene 21 = \<lparr>name = ''Entity'', children = [22, 23, 25], parent = Some 20, components = [10]\<rparr>"
  "ents scene 22 = \<lparr>name = ''Entity'', children = [], parent = Some 21, components = [11]\<rparr>"
  "ents scene 23 = \<lparr>name = ''Entity'', children = [24], parent = Some 21, components = [12]\<rparr>"
  "ents scene 24 = \<lparr>name = ''Entity'', children = [], parent = Some 23, components = [13]\<rparr>"
  "ents scene 25 = \<lparr>name = ''Entity'', children = [], parent = Some 21, components = [14]\<rparr>"
  by (simp_all add: scene_defs)

lemma scene_comps:
  "constructor (comps scene c) = (if c = 10 then Base else if c = 12 then DerivedB else DerivedA)"
  by (simp add: scene_defs)

lemma scene_trace: "trace scene = []"
  by (simp add: scene_defs)

section \<open>Lookup on one entity\<close>

lemma hasComponent_iff_find:
  "hasComponent w n T \<longleftrightarrow> getComponent w n T \<noteq> None"
  by (auto simp add: hasComponent_def getComponent_def list_ex_iff find_None_iff)

text \<open>
  C10: \<open>hasComponent(C)\<close> is true exactly when \<open>getComponent(C)\<close> returns a
  component, and what \<open>getComponent\<close> then returns is the first attached component,
  in attachment order, that passes the \<open>instanceof\<close> test.
\<close>

theorem hasComponent_agrees_with_getComponent:
  "hasComponent w n T = (getComponent w n T \<noteq> None) \<and>
   (hasComponent w n T \<longrightarrow>
     (\<exists>i<length (components (ents w n)).
        getComponent w n T = Some (components (ents w n) ! i) \<and>
        instanceof w (components (ents w n) ! i) T \<and>
        (\<forall>j<i. \<not> instanceof w (components (ents w n) ! j) T)))"
proof (intro conjI impI)
  show eq: "hasComponent w n T = (getComponent w n T \<noteq> None)"
    by (rule hasComponent_iff_find)
  assume "hasComponent w n T"
  with eq obtain c where "getComponent w n T = Some c" by auto
  then show "\<exists>i<length (components (ents w n)).
        getComponent w n T = Some (components (ents w n) ! i) \<and>
        instanceof w (components (ents w n) ! i) T \<and>
        (\<forall>j<i. \<not> instanceof w (components (ents w n) ! j) T)"
    by (auto simp: getComponent_def find_Some_iff)
qed

text \<open>
  In the scene, entity 21 holds the \<open>Base\<close> component 10 and nothing that is a
  \<open>DerivedA\<close>.
\<close>

theorem hasComponent_agrees_with_getComponent_witness:
  "hasComponent scene 21 Base \<and> getComponent scene 21 Base = Some 10 \<and>
   \<not> hasComponent scene 21 DerivedA \<and> getComponent scene 21 DerivedA = None"
  using hasComponent_agrees_with_getComponent [of scene 21 Base]
    hasComponent_agrees_with_getComponent [of scene 21 DerivedA]
  by (simp add: hasComponent_def getComponent_def instanceof_def scene_ents scene_comps
        Base_def DerivedA_def)

section \<open>Removing a child\<close>

lemma findIndex_from_none:
  "\<forall>x\<in>set xs. \<not> P x \<Longrightarrow> findIndex_from k P xs = - 1"
  by (induction xs arbitrary: k) auto

lemma findIndex_from_eq:
  "c \<in> set xs \<Longrightarrow>
   \<exists>i<length xs. findIndex_from k (\<lambda>x. x = c) xs = int (k + i) \<and> xs ! i = c
       \<and> take i xs @ drop (Suc i) xs = remove1 c xs"
proof (induction xs arbitrary: k)
  case Nil
  then show ?case by simp
next
  case (Cons x xs)
  show ?case
  proof (cases "x = c")
    case True
    then show ?thesis by (intro exI [of _ 0]) simp
  next
    case False
    with Cons.prems have "c \<in> set xs" by simp
    from Cons.IH [OF this, of "Suc k"] obtain i where
      i: "i < length xs" "findIndex_from (Suc k) (\<lambda>x. x = c) xs = int (Suc k + i)"
         "xs ! i = c" "take i xs @ drop (Suc i) xs = remove1 c xs"
      by blast
    with False show ?thesis by (intro exI [of _ "Suc i"]) simp
  qed
qed

lemma removeChild_absent:
  assumes "child \<notin> set (children (ents w n))"
  shows "removeChild w n child = Inl TypeError"
proof -
  from assms have "\<forall>x\<in>set (children (ents w n)). \<not> x = child" by auto
  then have "findIndex (\<lambda>c. c = child) (children (ents w n)) = - 1"
    unfolding findIndex_def by (rule findIndex_from_none)
  then show ?thesis by (simp add: removeChild_def array_get_def)
qed

lemma removeChild_present:
  assumes "child \<in> set (children (ents w n))"
  shows "removeChild w n child =
           Inr (set_children (set_parent w child None) n (remove1 child (children (ents w n))))"
proof -
  from findIndex_from_eq [OF assms, of 0] obtain i where
    i: "i < length (children (ents w n))"
       "findIndex (\<lambda>x. x = child) (children (ents w n)) = int i"
       "children (ents w n) ! i = child"
       "take i (children (ents w n)) @ drop (Suc i) (children (ents w n)) = remove1 child (children (ents w n))"
    by (auto simp: findIndex_def)
  have ch: "children (ents (set_parent w child None) n) = children (ents w n)"
    by (simp add: set_parent_def)
  show ?thesis
    using i by (simp add: removeChild_def array_get_def splice1_def ch)
qed

text \<open>
  C1: removing an entity that is not among the children ought to do nothing. In the
  scene, entity 23 is not a child of the root 20, and \<open>removeChild\<close> on it throws.
\<close>

theorem removeChild_absent_throws:
  "23 \<notin> set (children (ents scene 20)) \<and> removeChild scene 20 23 = Inl TypeError"
  by (simp add: scene_ents removeChild_def findIndex_def array_get_def)

section \<open>Queries over the direct children\<close>

lemma collect_fold:
  "fold (\<lambda>child components.
           if hasComponent w child T then components @ [getComponent w child T] else components)
        xs acc
   = acc @ map Some (List.map_filter (\<lambda>child. find (\<lambda>c. instanceof w c T) (components (ents w child))) xs)"
proof (induction xs arbitrary: acc)
  case Nil
  then show ?case by simp
next
  case (Cons x xs)
  show ?case
  proof (cases "hasComponent w x T")
    case True
    then obtain c where c: "getComponent w x T = Some c"
      by (auto simp: hasComponent_iff_find)
    then have "find (\<lambda>c. instanceof w c T) (components (ents w x)) = Some c"
      by (simp add: getComponent_def)
    with True c show ?thesis by (simp add: Cons.IH)
  next
    case False
    then have "find (\<lambda>c. instanceof w c T) (components (ents w x)) = None"
      by (simp add: hasComponent_iff_find getComponent_def)
    with False show ?thesis by (simp add: Cons.IH)
  qed
qed

text \<open>
  C8: \<open>getComponentsInChildren(C)\<close> returns exactly the matching components of the
  direct children, one per child that has a match, in child order; deeper
  descendants are never looked at.
\<close>

theorem getComponentsInChildren_direct_children:
  "getComponentsInChildren w n T = map Some (matches_of_direct_children w n T)"
  by (simp add: getComponentsInChildren_def matches_of_direct_children_def collect_fold)

text \<open>
  In the scene, the children 22, 23, 25 of entity 21 hold a \<open>DerivedA\<close>, a \<open>DerivedB\<close>
  and a \<open>DerivedA\<close>; the \<open>DerivedA\<close> of the grandchild 24 is not reported.
\<close>

theorem getComponentsInChildren_example:
  "getComponentsInChildren scene 21 DerivedA = [Some 11, Some 14] \<and>
   getComponent scene 24 DerivedA = Some 13 \<and> children (ents scene 23) = [24]"
  using getComponentsInChildren_direct_children [of scene 21 DerivedA]
  by (simp add: matches_of_direct_children_def getComponent_def instanceof_def scene_ents scene_comps
        Base_def DerivedA_def DerivedB_def)

lemma getComponentinChildren_null: "getComponentinChildren w n T = None"
  by (simp add: getComponentinChildren_def)

text \<open>
  The earlier copy of the method returns the match of the last child that has one.
\<close>

lemma getComponentinChildren_earlier_last_match:
  "getComponentinChildren_earlier w n T =
     (case rev (filter (\<lambda>child. hasComponent w child T) (children (ents w n))) of
        [] \<Rightarrow> None
      | child # _ \<Rightarrow> getComponent w child T)"
proof -
  have "fold (\<lambda>child component. if hasComponent w child T then getComponent w child T else component) xs acc =
        (case rev (filter (\<lambda>child. hasComponent w child T) xs) of
           [] \<Rightarrow> acc
         | child # _ \<Rightarrow> getComponent w child T)" for xs acc
    by (induction xs rule: rev_induct) simp_all
  then show ?thesis by (simp add: getComponentinChildren_earlier_def)
qed

text \<open>
  C2: \<open>getComponentInChildren(C)\<close> ought to return the match of the last child that
  has one. In the scene all three children of entity 21 hold a \<open>Base\<close>, the last of
  them component 14; the method returns \<open>null\<close>, where the earlier copy of the
  class returns component 14.
\<close>

theorem getComponentinChildren_returns_null:
  "children (ents scene 21) = [22, 23, 25] \<and>
   getComponent scene 22 Base = Some 11 \<and> getComponent scene 23 Base = Some 12 \<and>
   getComponent scene 25 Base = Some 14 \<and>
   getComponentinChildren scene 21 Base = None \<and>
   getComponentinChildren_earlier scene 21 Base = Some 14"
  by (simp add: getComponentinChildren_def getComponentinChildren_earlier_def getComponent_def
        hasComponent_def instanceof_def scene_ents scene_comps Base_def DerivedA_def DerivedB_def)



section \<open>Warnings instead of errors\<close>

lemma findIndex_none_iff_not_list_ex:
  "\<not> list_ex P xs \<Longrightarrow> findIndex P xs = - 1"
  unfolding findIndex_def by (rule findIndex_from_none) (simp add: list_ex_iff)

text \<open>
  C7: attaching a component whose class is already matched, adding a child that is
  already in the children array, and removing a component that is not there each
  leave the store as it is and add one warning to the console. None of the three
  methods has a statement that can throw on these paths, so they are total
  functions on stores.
\<close>

theorem duplicates_and_misses_are_warnings:
  "(hasComponent w n (constructor (comps w c)) \<longrightarrow>
      addComponent w n c = w\<lparr>trace := trace w @ [Warn ''Component already attached'']\<rparr>) \<and>
   (child \<in> set (children (ents w n)) \<longrightarrow>
      addChild w n child = w\<lparr>trace := trace w @ [Warn ''Child already attached'']\<rparr>) \<and>
   (\<not> hasComponent w n T \<longrightarrow>
      removeComponent w n T = w\<lparr>trace := trace w @ [Warn ''Component not found'']\<rparr>)"
proof (intro conjI impI)
  assume "hasComponent w n (constructor (comps w c))"
  then show "addComponent w n c = w\<lparr>trace := trace w @ [Warn ''Component already attached'']\<rparr>"
    by (simp add: addComponent_def console_warn_def)
next
  assume "child \<in> set (children (ents w n))"
  then show "addChild w n child = w\<lparr>trace := trace w @ [Warn ''Child already attached'']\<rparr>"
    by (simp add: addChild_def console_warn_def)
next
  assume "\<not> hasComponent w n T"
  then have "findIndex (\<lambda>component. instanceof w component T) (components (ents w n)) = - 1"
    unfolding hasComponent_def by (rule findIndex_none_iff_not_list_ex)
  then show "removeComponent w n T = w\<lparr>trace := trace w @ [Warn ''Component not found'']\<rparr>"
    by (simp add: removeComponent_def console_warn_def)
qed

text \<open>
  In the scene: component 10 attached to entity 21 again, child 22 added to 21
  again, and a \<open>DerivedA\<close> removed from 21, which holds none.
\<close>

theorem duplicates_and_misses_are_warnings_witness:
  "hasComponent scene 21 (constructor (comps scene 10)) \<and>
   ents (addComponent scene 21 10) = ents scene \<and>
   comps (addComponent scene 21 10) = comps scene \<and>
   trace (addComponent scene 21 10) = [Warn ''Component already attached''] \<and>
   22 \<in> set (children (ents scene 21)) \<and>
   ents (addChild scene 21 22) = ents scene \<and>
   comps (addChild scene 21 22) = comps scene \<and>
   trace (addChild scene 21 22) = [Warn ''Child already attached''] \<and>
   \<not> hasComponent scene 21 DerivedA \<and>
   ents (removeComponent scene 21 DerivedA) = ents scene \<and>
   comps (removeComponent scene 21 DerivedA) = comps scene \<and>
   trace (removeComponent scene 21 DerivedA) = [Warn ''Component not found'']"
  using duplicates_and_misses_are_warnings [of scene 21 10 22 DerivedA]
  by (simp add: hasComponent_def instanceof_def scene_ents scene_comps scene_trace
        Base_def DerivedA_def)

section \<open>Adding a child twice\<close>

lemma addChild_again:
  "addChild (addChild w n c) n c = (addChild w n c)\<lparr>trace := trace (addChild w n c) @ [Warn ''Child already attached'']\<rparr>"
  by (simp add: addChild_def store_defs Let_def)

text \<open>
  C9, as the code has it: when the child is not in the children array before the
  first call, or is there once with the receiver as its parent, two calls of
  \<open>addChild\<close> with that child leave exactly one occurrence of it in the array, with
  the receiver as its parent, and the second call changes nothing in the store.
\<close>

theorem addChild_twice:
  assumes "count_list (children (ents w n)) c \<le> 1"
    and "c \<in> set (children (ents w n)) \<Longrightarrow> parent (ents w c) = Some n"
  shows "count_list (children (ents (addChild (addChild w n c) n c) n)) c = 1 \<and>
         parent (ents (addChild (addChild w n c) n c) c) = Some n \<and>
         ents (addChild (addChild w n c) n c) = ents (addChild w n c) \<and>
         comps (addChild (addChild w n c) n c) = comps (addChild w n c)"
proof (cases "c \<in> set (children (ents w n))")
  case True
  then have "count_list (children (ents w n)) c \<noteq> 0"
    by (simp add: count_list_0_iff)
  with assms(1) have "count_list (children (ents w n)) c = 1" by simp
  with True assms(2) show ?thesis
    by (simp add: addChild_def store_defs)
next
  case False
  then have "count_list (children (ents w n)) c = 0"
    by (simp add: count_list_0_iff)
  then show ?thesis
    using False by (auto simp add: addChild_def store_defs Let_def)
qed

text \<open>
  Entity 21 added twice to the untouched entity 20, and entity 22 added twice to
  its parent 21 in the scene.
\<close>

theorem addChild_twice_witness:
  "count_list (children (ents fresh_world 20)) 21 \<le> 1 \<and>
   21 \<notin> set (children (ents fresh_world 20)) \<and>
   children (ents (addChild (addChild fresh_world 20 21) 20 21) 20) = [21] \<and>
   parent (ents (addChild (addChild fresh_world 20 21) 20 21) 21) = Some 20 \<and>
   count_list (children (ents scene 21)) 22 \<le> 1 \<and>
   parent (ents scene 22) = Some 21 \<and>
   children (ents (addChild (addChild scene 21 22) 21 22) 21) = [22, 23, 25] \<and>
   parent (ents (addChild (addChild scene 21 22) 21 22) 22) = Some 21"
  using addChild_twice [of fresh_world 20 21] addChild_twice [of scene 21 22]
  by (simp add: scene_ents fresh_world_def new_Entity_def addChild_def store_defs)


text \<open>
  The store \<open>tangle\<close> is one that \<open>addChild\<close> calls produce from freshly
  constructed entities.
\<close>

lemma freshly_constructed_fresh_world: "freshly_constructed fresh_world"
  by (simp add: freshly_constructed_def fresh_world_def new_Entity_def)

lemma by_child_calls_tangle: "by_child_calls tangle"
  unfolding tangle_def
  by (intro by_child_calls.add by_child_calls.start freshly_constructed_fresh_world)

text \<open>
  C9 as stated fails on \<open>tangle\<close>: entity 22 is once in the children of 20, but was
  added to 21 afterwards. Two calls of \<open>addChild\<close> on 20 with 22 both find it in the
  array and only warn, and the parent reference of 22 stays 21.
\<close>

theorem addChild_twice_keeps_other_parent:
  "by_child_calls tangle \<and>
   count_list (children (ents tangle 20)) 22 = 1 \<and>
   children (ents (addChild (addChild tangle 20 22) 20 22) 20) = [22] \<and>
   parent (ents (addChild (addChild tangle 20 22) 20 22) 22) = Some 21 \<and>
   \<not> parent (ents (addChild (addChild tangle 20 22) 20 22) 22) = Some 20"
proof -
  have "count_list (children (ents tangle 20)) 22 = 1"
    and "children (ents (addChild (addChild tangle 20 22) 20 22) 20) = [22]"
    and "parent (ents (addChild (addChild tangle 20 22) 20 22) 22) = Some 21"
    by (simp_all add: tangle_def fresh_world_def new_Entity_def addChild_def store_defs)
  with by_child_calls_tangle show ?thesis by simp
qed

section \<open>One component per class\<close>

lemma on_prototype_chain_refl: "on_prototype_chain T T"
  by (cases T) simp_all

lemma constructor_addComponent:
  "constructor (comps (addComponent w n c) c') = constructor (comps w c')"
  by (simp add: addComponent_def store_defs Let_def)

lemma components_addComponent:
  "components (ents (addComponent w n c) m) =
     (if m = n \<and> \<not> hasComponent w n (constructor (comps w c))
      then components (ents w n) @ [c] else components (ents w m))"
  by (simp add: addComponent_def store_defs Let_def)

lemma classes_of_addComponent:
  "classes_of (addComponent w n c) m =
     (if m = n \<and> \<not> hasComponent w n (constructor (comps w c))
      then classes_of w n @ [constructor (comps w c)] else classes_of w m)"
  by (simp add: classes_of_def components_addComponent constructor_addComponent)

lemma hasComponent_classes:
  "hasComponent w n T \<longleftrightarrow> (\<exists>K\<in>set (classes_of w n). on_prototype_chain K T)"
  by (auto simp: hasComponent_def classes_of_def instanceof_def list_ex_iff)

lemma addComponent_keeps_order:
  assumes "sorted_wrt (\<lambda>a b. \<not> on_prototype_chain a b) (classes_of w m)"
  shows "sorted_wrt (\<lambda>a b. \<not> on_prototype_chain a b) (classes_of (addComponent w n c) m)"
  using assms
  by (auto simp: classes_of_addComponent sorted_wrt_append hasComponent_classes)

lemma addComponent_calls_keep_order:
  "sorted_wrt (\<lambda>a b. \<not> on_prototype_chain a b) (classes_of w m) \<Longrightarrow>
   sorted_wrt (\<lambda>a b. \<not> on_prototype_chain a b) (classes_of (addComponent_calls calls w) m)"
proof (induction calls arbitrary: w)
  case Nil
  then show ?case by (simp add: addComponent_calls_def)
next
  case (Cons a calls)
  obtain n c where a: "a = (n, c)" by (cases a)
  have "sorted_wrt (\<lambda>a b. \<not> on_prototype_chain a b) (classes_of (addComponent w n c) m)"
    using Cons.prems by (rule addComponent_keeps_order)
  from Cons.IH [OF this] show ?case
    by (simp add: addComponent_calls_def a)
qed

lemma no_instance_order_distinct:
  "sorted_wrt (\<lambda>a b. \<not> on_prototype_chain a b) Ks \<Longrightarrow> distinct Ks"
  by (induction Ks) (auto simp: on_prototype_chain_refl)

lemma distinct_map_filter_le1:
  "distinct (map f xs) \<Longrightarrow> length (filter (\<lambda>x. f x = y) xs) \<le> 1"
  by (induction xs) (auto simp: filter_empty_conv image_iff)

text \<open>
  C4, as the code has it: after any run of \<open>addComponent\<close> calls on a store in which
  entity \<open>n\<close> has no component yet, \<open>n\<close> holds at most one component of each class,
  and no attached component is an instance of the class of a component attached
  after it.
\<close>

theorem one_component_per_class:
  assumes "components (ents w n) = []"
  shows "length (of_class (addComponent_calls calls w) n T) \<le> 1 \<and>
         sorted_wrt (\<lambda>a b. \<not> on_prototype_chain a b) (classes_of (addComponent_calls calls w) n)"
proof -
  from assms have "sorted_wrt (\<lambda>a b. \<not> on_prototype_chain a b) (classes_of w n)"
    by (simp add: classes_of_def)
  then have ord: "sorted_wrt (\<lambda>a b. \<not> on_prototype_chain a b) (classes_of (addComponent_calls calls w) n)"
    by (rule addComponent_calls_keep_order)
  then have "distinct (classes_of (addComponent_calls calls w) n)"
    by (rule no_instance_order_distinct)
  then have "length (of_class (addComponent_calls calls w) n T) \<le> 1"
    unfolding classes_of_def of_class_def by (rule distinct_map_filter_le1)
  with ord show ?thesis by simp
qed

text \<open>
  Components 10 (\<open>Base\<close>), 11 (\<open>DerivedA\<close>), 13 (\<open>DerivedA\<close>) and 12 (\<open>DerivedB\<close>)
  attached to entity 20 in this order: 13 is turned away.
\<close>

theorem one_component_per_class_witness:
  "components (ents fresh_world 20) = [] \<and>
   components (ents (addComponent_calls [(20, 10), (20, 11), (20, 13), (20, 12)] fresh_world) 20) = [10, 11, 12] \<and>
   length (of_class (addComponent_calls [(20, 10), (20, 11), (20, 13), (20, 12)] fresh_world) 20 DerivedA) \<le> 1"
  using one_component_per_class [of fresh_world 20 "[(20, 10), (20, 11), (20, 13), (20, 12)]" DerivedA]
  by (simp add: addComponent_calls_def fresh_world_def new_Entity_def addComponent_def
        hasComponent_def instanceof_def Base_def DerivedA_def DerivedB_def store_defs)

text \<open>
  C4 as stated fails: with the \<open>Base\<close> component 10 attached first and the
  \<open>DerivedA\<close> component 11 second, entity 20 holds two components that satisfy the
  capability \<open>Base\<close>.
\<close>

theorem two_components_satisfy_Base:
  "components (ents fresh_world 20) = [] \<and>
   satisfying (addComponent_calls [(20, 10), (20, 11)] fresh_world) 20 Base = [10, 11] \<and>
   \<not> length (satisfying (addComponent_calls [(20, 10), (20, 11)] fresh_world) 20 Base) \<le> 1"
  by (simp add: satisfying_def addComponent_calls_def fresh_world_def new_Entity_def addComponent_def
        hasComponent_def instanceof_def Base_def DerivedA_def DerivedB_def store_defs)


section \<open>The shape of the scene graph\<close>

lemma children_addChild:
  "children (ents (addChild w n c) m) =
     (if m = n \<and> c \<notin> set (children (ents w n)) then children (ents w n) @ [c]
      else children (ents w m))"
  by (simp add: addChild_def store_defs Let_def)

lemma parent_addChild:
  "parent (ents (addChild w n c) x) =
     (if x = c \<and> c \<notin> set (children (ents w n)) then Some n else parent (ents w x))"
  by (simp add: addChild_def store_defs Let_def)

lemma removeChild_Inr:
  assumes "removeChild w n c = Inr w'"
  shows "c \<in> set (children (ents w n))"
    and "children (ents w' m) = (if m = n then remove1 c (children (ents w n)) else children (ents w m))"
    and "parent (ents w' x) = (if x = c then None else parent (ents w x))"
proof -
  show in_ch: "c \<in> set (children (ents w n))"
  proof (rule ccontr)
    assume "c \<notin> set (children (ents w n))"
    then have "removeChild w n c = Inl TypeError" by (rule removeChild_absent)
    with assms show False by simp
  qed
  from removeChild_present [OF in_ch] assms
  have w': "w' = set_children (set_parent w c None) n (remove1 c (children (ents w n)))"
    by simp
  show "children (ents w' m) = (if m = n then remove1 c (children (ents w n)) else children (ents w m))"
    by (simp add: w' store_defs)
  show "parent (ents w' x) = (if x = c then None else parent (ents w x))"
    by (simp add: w' store_defs)
qed

lemma fresh_invariants:
  assumes "freshly_constructed w"
  shows "children (ents w n) = []" and "parent (ents w n) = None"
proof -
  from assms have "ents w n = new_Entity (name (ents w n))"
    by (simp add: freshly_constructed_def)
  then have "children (ents w n) = children (new_Entity (name (ents w n)))"
    and "parent (ents w n) = parent (new_Entity (name (ents w n)))" by simp_all
  then show "children (ents w n) = []" and "parent (ents w n) = None"
    by (simp_all add: new_Entity_def)
qed

lemma by_child_calls_invariant:
  "by_child_calls w \<Longrightarrow> no_repeats w \<and> parent_is_holder w"
proof (induction rule: by_child_calls.induct)
  case (start w)
  then show ?case
    by (simp add: no_repeats_def parent_is_holder_def fresh_invariants)
next
  case (add w n c)
  then show ?case
    by (auto simp: no_repeats_def parent_is_holder_def children_addChild parent_addChild)
next
  case (remove w n c w')
  note r = removeChild_Inr [OF remove.hyps(2)]
  from remove.IH show ?case
    by (auto simp: no_repeats_def parent_is_holder_def r(2) r(3))
qed

lemma child_rel_addChild: "child_rel (addChild w n c) = insert (n, c) (child_rel w)"
  by (auto simp: child_rel_def children_addChild split: if_splits)

lemma child_rel_removeChild:
  assumes "removeChild w n c = Inr w'"
  shows "child_rel w' \<subseteq> child_rel w"
  using removeChild_Inr(2) [OF assms] notin_set_remove1
  by (fastforce simp: child_rel_def split: if_splits)

lemma by_tree_calls_invariant:
  "by_tree_calls w \<Longrightarrow> tree_shape w"
proof (induction rule: by_tree_calls.induct)
  case (start w)
  then show ?case
    by (simp add: tree_shape_def children_know_parent_def single_holder_def no_repeats_def
          child_rel_def fresh_invariants acyclic_def)
next
  case (add w c n)
  then have inv: "children_know_parent w" "single_holder w" "no_repeats w" "acyclic (child_rel w)"
    by (simp_all add: tree_shape_def)
  from inv(1) add.hyps(2) have nowhere: "\<And>m. c \<notin> set (children (ents w m))"
    by (auto simp: children_know_parent_def)
  have "children_know_parent (addChild w n c)"
    using inv(1) nowhere
    by (auto simp: children_know_parent_def children_addChild parent_addChild split: if_splits)
  moreover have "single_holder (addChild w n c)"
    using inv(2) nowhere
    by (auto simp: single_holder_def children_addChild split: if_splits)
  moreover have "no_repeats (addChild w n c)"
    using inv(3) nowhere by (auto simp: no_repeats_def children_addChild)
  moreover have "acyclic (child_rel (addChild w n c))"
    using inv(4) add.hyps(3) by (simp add: child_rel_addChild)
  ultimately show ?case by (simp add: tree_shape_def)
next
  case (add_again w c n)
  then have "ents (addChild w n c) = ents w"
    by (simp add: addChild_def console_warn_def)
  with add_again.IH show ?case
    by (simp add: tree_shape_def children_know_parent_def single_holder_def no_repeats_def
          child_rel_def)
next
  case (remove w n c w')
  note r = removeChild_Inr [OF remove.hyps(2)]
  from remove.IH have inv: "children_know_parent w" "single_holder w" "no_repeats w" "acyclic (child_rel w)"
    by (simp_all add: tree_shape_def)
  have "children_know_parent w'"
    unfolding children_know_parent_def
  proof (intro allI impI)
    fix m x
    assume x: "x \<in> set (children (ents w' m))"
    then have xm: "x \<in> set (children (ents w m))"
      using notin_set_remove1 by (fastforce simp: r(2) split: if_splits)
    with inv(1) have px: "parent (ents w x) = Some m"
      by (simp add: children_know_parent_def)
    have "x \<noteq> c"
    proof
      assume "x = c"
      with xm r(1) inv(2) have "m = n" by (auto simp: single_holder_def)
      with x \<open>x = c\<close> inv(3) show False by (simp add: r(2) no_repeats_def)
    qed
    with px show "parent (ents w' x) = Some m" by (simp add: r(3))
  qed
  moreover have "single_holder w'"
    using inv(2) inv(3) notin_set_remove1
    by (fastforce simp: single_holder_def no_repeats_def r(2) split: if_splits)
  moreover have "no_repeats w'"
    using inv(3) by (auto simp: no_repeats_def r(2))
  moreover have "acyclic (child_rel w')"
    using inv(4) child_rel_removeChild [OF remove.hyps(2)] by (rule acyclic_subset)
  ultimately show ?case by (simp add: tree_shape_def)
qed

text \<open>
  What adding a child twice asks of the store holds in every store of tree shape.
\<close>

lemma distinct_count_le_1: "distinct xs \<Longrightarrow> count_list xs x \<le> 1"
  by (induction xs) auto

lemma tree_shape_local:
  assumes "by_tree_calls w"
  shows "count_list (children (ents w n)) c \<le> 1"
    and "c \<in> set (children (ents w n)) \<Longrightarrow> parent (ents w c) = Some n"
proof -
  from assms have t: "tree_shape w" by (rule by_tree_calls_invariant)
  then have "distinct (children (ents w n))"
    by (simp add: tree_shape_def no_repeats_def)
  then show "count_list (children (ents w n)) c \<le> 1"
    by (rule distinct_count_le_1)
  show "parent (ents w c) = Some n" if "c \<in> set (children (ents w n))"
    using t that by (simp add: tree_shape_def children_know_parent_def)
qed

text \<open>
  C5, as the code has it: every store that \<open>addChild\<close> and \<open>removeChild\<close> produce from
  freshly constructed entities has no entity twice in one children array and has
  every entity in the children of the entity its parent reference names. When each
  \<open>addChild\<close> that appends is given an entity without a parent that is neither the
  receiver nor an ancestor of it, the store has the whole tree shape.
\<close>

theorem child_calls_keep_shape:
  "(by_child_calls w \<longrightarrow> no_repeats w \<and> parent_is_holder w) \<and>
   (by_tree_calls w \<longrightarrow> tree_shape w)"
  using by_child_calls_invariant by_tree_calls_invariant by blast


lemma leaf_reaches_nothing:
  assumes "children (ents w c) = []" and "c \<noteq> n"
  shows "(c, n) \<notin> (child_rel w)\<^sup>*"
proof
  assume "(c, n) \<in> (child_rel w)\<^sup>*"
  then show False
  proof (cases rule: converse_rtranclE)
    case base
    with assms(2) show False by simp
  next
    case (step y)
    with assms(1) show False by (simp add: child_rel_def)
  qed
qed

lemmas eval_defs = fresh_world_def new_Entity_def addChild_def set_parent_def set_children_def
  console_warn_def

lemma by_tree_calls_scene_tree: "by_tree_calls scene_tree"
proof -
  let ?w1 = "addChild fresh_world 20 21"
  let ?w2 = "addChild ?w1 21 22"
  let ?w3 = "addChild ?w2 21 23"
  let ?w4 = "addChild ?w3 21 25"
  have "by_tree_calls fresh_world"
    using freshly_constructed_fresh_world by (rule by_tree_calls.start)
  then have "by_tree_calls ?w1"
    by (rule by_tree_calls.add) (simp_all add: leaf_reaches_nothing eval_defs)
  then have "by_tree_calls ?w2"
    by (rule by_tree_calls.add) (simp_all add: leaf_reaches_nothing eval_defs)
  then have "by_tree_calls ?w3"
    by (rule by_tree_calls.add) (simp_all add: leaf_reaches_nothing eval_defs)
  then have "by_tree_calls ?w4"
    by (rule by_tree_calls.add) (simp_all add: leaf_reaches_nothing eval_defs)
  then have "by_tree_calls (addChild ?w4 23 24)"
    by (rule by_tree_calls.add) (simp_all add: leaf_reaches_nothing eval_defs)
  then show ?thesis by (simp add: scene_tree_def)
qed

lemma scene_tree_children:
  "children (ents scene_tree 20) = [21]"
  "children (ents scene_tree 21) = [22, 23, 25]"
  "children (ents scene_tree 23) = [24]"
  by (simp_all add: scene_tree_def eval_defs)

lemma removeChild_scene_tree: "removeChild scene_tree 21 23 = Inr pruned"
  by (simp add: pruned_def removeChild_present scene_tree_children)

lemma by_tree_calls_pruned: "by_tree_calls pruned"
  using by_tree_calls_scene_tree removeChild_scene_tree by (rule by_tree_calls.remove)

text \<open>
  The two parts at \<open>tangle\<close> and at \<open>pruned\<close>.
\<close>

theorem child_calls_keep_shape_witness:
  "by_child_calls tangle \<and> no_repeats tangle \<and> parent_is_holder tangle \<and>
   by_tree_calls pruned \<and> tree_shape pruned \<and>
   children (ents pruned 21) = [22, 25] \<and> parent (ents pruned 23) = None"
  using child_calls_keep_shape [of tangle] child_calls_keep_shape [of pruned]
    by_child_calls_tangle by_tree_calls_pruned
    removeChild_Inr(2) [OF removeChild_scene_tree, of 21]
    removeChild_Inr(3) [OF removeChild_scene_tree, of 23]
  by (simp add: scene_tree_children)

text \<open>
  C5 as stated fails on \<open>tangle\<close>: entity 22 is in the children of 20 and of 21 and
  its parent reference is 21, and entity 23 is its own child.
\<close>

theorem shared_child_and_self_child:
  "by_child_calls tangle \<and>
   22 \<in> set (children (ents tangle 20)) \<and> 22 \<in> set (children (ents tangle 21)) \<and>
   parent (ents tangle 22) = Some 21 \<and>
   23 \<in> set (children (ents tangle 23)) \<and>
   \<not> children_know_parent tangle \<and> \<not> single_holder tangle \<and> \<not> acyclic (child_rel tangle) \<and>
   \<not> tree_shape tangle"
proof -
  have facts: "22 \<in> set (children (ents tangle 20))" "22 \<in> set (children (ents tangle 21))"
    "parent (ents tangle 22) = Some 21" "23 \<in> set (children (ents tangle 23))"
    by (simp_all add: tangle_def eval_defs)
  have a: "\<not> children_know_parent tangle"
  proof
    assume "children_know_parent tangle"
    with facts(1) have "parent (ents tangle 22) = Some 20"
      by (simp add: children_know_parent_def)
    with facts(3) show False by simp
  qed
  have b: "\<not> single_holder tangle"
  proof
    assume "single_holder tangle"
    with facts(1) facts(2) have "(20::nat) = 21"
      unfolding single_holder_def by blast
    then show False by simp
  qed
  have "(23, 23) \<in> child_rel tangle"
    using facts(4) by (simp add: child_rel_def)
  then have "(23, 23) \<in> (child_rel tangle)\<^sup>+" by (rule r_into_trancl)
  then have c: "\<not> acyclic (child_rel tangle)" by (auto simp: acyclic_def)
  from a have "\<not> tree_shape tangle" by (simp add: tree_shape_def)
  with facts a b c by_child_calls_tangle show ?thesis by simp
qed

section \<open>Init\<close>

lemma fold_call_hook:
  "fold (call_hook hook) cs w = w\<lparr>trace := trace w @ map hook cs\<rparr>"
  by (induction cs arbitrary: w) (simp_all add: call_hook_def)

lemma components_forEach_trace:
  "components_forEach hook n w = w\<lparr>trace := trace w @ map hook (components (ents w n))\<rparr>"
  by (simp add: components_forEach_def fold_call_hook)

lemma unfolds_all_nth:
  "unfolds_all w cs ts \<longleftrightarrow> length cs = length ts \<and> (\<forall>i<length ts. unfolds_to w (cs ! i) (ts ! i))"
proof (induction cs arbitrary: ts)
  case Nil
  then show ?case by (cases ts) simp_all
next
  case (Cons c cs)
  show ?case
  proof (cases ts)
    case Nil
    then show ?thesis by simp
  next
    case (Cons t ts')
    then show ?thesis
      by (auto simp: Cons.IH less_Suc_eq_0_disj)
  qed
qed

lemma unfolds_to_ents:
  "ents w' = ents w \<Longrightarrow> unfolds_to w' n t = unfolds_to w n t"
  "ents w' = ents w \<Longrightarrow> unfolds_all w' ns ts = unfolds_all w ns ts"
  by (induction w n t and w ns ts rule: unfolds_to_unfolds_all.induct) simp_all

lemma depth_member: "t \<in> set ts \<Longrightarrow> depth t \<le> foldr (\<lambda>t d. max (depth t) d) ts 0"
  by (induction ts) auto

text \<open>
  A \<open>forEach\<close> over the children whose callback leaves the entities alone visits
  every child, in order.
\<close>

lemma children_forEach_quiet:
  assumes same: "ents w' = ents w"
    and len: "len = length (children (ents w n))"
    and cb: "\<And>i v. i < len \<Longrightarrow> ents v = ents w \<Longrightarrow>
               callback v (children (ents w n) ! i) = Some (Inr (v\<lparr>trace := trace v @ tr i\<rparr>))"
  shows "children_forEach callback n len k w' =
           Some (Inr (w'\<lparr>trace := trace w' @ concat (map tr [k..<len])\<rparr>))"
  using same
proof (induction "len - k" arbitrary: k w')
  case 0
  then have "\<not> k < len" by simp
  then show ?case by (simp add: children_forEach.simps)
next
  case (Suc d)
  then have k: "k < len" by simp
  let ?v = "w'\<lparr>trace := trace w' @ tr k\<rparr>"
  have step: "callback w' (children (ents w n) ! k) = Some (Inr ?v)"
    using k Suc.prems by (rule cb)
  have ents_v: "ents ?v = ents w" using Suc.prems by simp
  have "d = len - Suc k" using Suc.hyps(2) by simp
  from Suc.hyps(1) [OF this ents_v]
  have rest: "children_forEach callback n len (Suc k) ?v =
      Some (Inr (?v\<lparr>trace := trace ?v @ concat (map tr [Suc k..<len])\<rparr>))" .
  have "children_forEach callback n len k w' = children_forEach callback n len (Suc k) ?v"
    using k len step Suc.prems by (subst children_forEach.simps) simp
  with rest show ?case using k by (simp add: upt_conv_Cons)
qed

lemma Init_follows_tree:
  "unfolds_to w n t \<Longrightarrow> depth t \<le> fuel \<Longrightarrow>
   Init fuel w n = Some (Inr (w\<lparr>trace := trace w @ init_order t\<rparr>))"
proof (induction t arbitrary: w n fuel)
  case (Node cs ts)
  from Node.prems(2) obtain f where fuel: "fuel = Suc f"
    and f: "foldr (\<lambda>t d. max (depth t) d) ts 0 \<le> f"
    by (cases fuel) simp_all
  from Node.prems(1) have comps: "components (ents w n) = cs"
    and len: "length (children (ents w n)) = length ts"
    and sub: "\<And>i. i < length ts \<Longrightarrow> unfolds_to w (children (ents w n) ! i) (ts ! i)"
    by (simp_all add: unfolds_all_nth)
  let ?w1 = "components_forEach Init_call n w"
  have w1: "?w1 = w\<lparr>trace := trace w @ map Init_call cs\<rparr>"
    by (simp add: components_forEach_trace comps)
  have ents1: "ents ?w1 = ents w" by (simp add: components_forEach_trace)
  have cb: "Init f v (children (ents w n) ! i) = Some (Inr (v\<lparr>trace := trace v @ init_order (ts ! i)\<rparr>))"
    if i: "i < length (children (ents ?w1 n))" and v: "ents v = ents w" for i v
  proof -
    from i have i': "i < length ts" by (simp add: ents1 len)
    then have mem: "ts ! i \<in> set ts" by simp
    have "unfolds_to v (children (ents w n) ! i) (ts ! i)"
      using sub [OF i'] by (simp add: unfolds_to_ents(1) [OF v])
    moreover have "depth (ts ! i) \<le> f"
      using depth_member [OF mem] f by simp
    ultimately show ?thesis by (rule Node.IH [OF mem])
  qed
  have "children_forEach (Init f) n (length (children (ents ?w1 n))) 0 ?w1 =
        Some (Inr (?w1\<lparr>trace := trace ?w1 @ concat (map (\<lambda>i. init_order (ts ! i)) [0..<length (children (ents ?w1 n))])\<rparr>))"
    by (rule children_forEach_quiet [OF ents1]) (simp_all add: ents1 cb)
  moreover have "map (\<lambda>i. init_order (ts ! i)) [0..<length ts] = map init_order ts"
    by (rule nth_equalityI) simp_all
  ultimately show ?case
    by (simp add: fuel Let_def len ents1 w1)
qed


text \<open>
  A store in which an entity is its own child: \<open>Init\<close> on it does not return,
  whatever the number of nested calls allowed.
\<close>

lemma Init_on_cycle_never_returns:
  "ents w = ents tangle \<Longrightarrow> Init fuel w 23 = None"
proof (induction fuel arbitrary: w)
  case 0
  then show ?case by simp
next
  case (Suc fuel)
  let ?w1 = "components_forEach Init_call 23 w"
  have ents1: "ents ?w1 = ents tangle"
    using Suc.prems by (simp add: components_forEach_trace)
  have ch: "children (ents tangle 23) = [23]"
    by (simp add: tangle_def eval_defs)
  have "Init fuel ?w1 23 = None" using ents1 by (rule Suc.IH)
  then have "children_forEach (Init fuel) 23 (Suc 0) 0 ?w1 = None"
    by (subst children_forEach.simps) (simp add: ents1 ch)
  then show ?case by (simp add: Let_def ents1 ch)
qed

text \<open>
  C6: on a store that reads as the tree \<open>t\<close> below entity \<open>n\<close>, \<open>Init\<close> returns as
  soon as it is allowed \<open>depth t\<close> nested calls, leaves every entity as it was, and
  has made exactly the hook calls of \<open>init_order t\<close>: \<open>Init\<close> on the components of
  \<open>n\<close> in attachment order, then, child after child in child order, the calls that
  \<open>Init\<close> on that child makes.
\<close>

theorem Init_components_then_children:
  assumes "unfolds_to w n t" and "depth t \<le> fuel"
  shows "Init fuel w n = Some (Inr (w\<lparr>trace := trace w @ init_order t\<rparr>))"
  using assms by (rule Init_follows_tree)

text \<open>
  \<open>Init\<close> on the root of the scene.
\<close>

theorem Init_components_then_children_witness:
  "unfolds_to scene 20 scene_shape \<and> depth scene_shape \<le> 4 \<and>
   Init 4 scene 20 =
     Some (Inr (scene\<lparr>trace := [Init_call 10, Init_call 11, Init_call 12, Init_call 13, Init_call 14]\<rparr>))"
proof -
  have u: "unfolds_to scene 20 scene_shape"
    by (simp add: scene_shape_def subtree_21_def scene_ents)
  have d: "depth scene_shape \<le> 4"
    by (simp add: scene_shape_def subtree_21_def)
  from Init_components_then_children [OF u d] u d show ?thesis
    by (simp add: scene_shape_def subtree_21_def scene_trace)
qed

section \<open>Destroy\<close>

text \<open>
  \<open>Destroy\<close> on entity 23 of the scene, which has the one child 24: both are torn
  down and 23 leaves the children of 21.
\<close>

lemma Destroy_single_child:
  "(case Destroy 3 scene 23 of
      Some (Inr w) \<Rightarrow>
        trace w = [Destroy_call 12, Destroy_call 13] \<and>
        children (ents w 23) = [] \<and> parent (ents w 24) = None \<and>
        children (ents w 21) = [22, 25] \<and> parent (ents w 23) = None
    | _ \<Rightarrow> False)"
  by (simp add: scene_ents scene_trace numeral_3_eq_3 components_forEach_trace
        children_forEach.simps removeChild_def findIndex_def array_get_def splice1_def store_defs)

text \<open>
  C3: \<open>Destroy\<close> on entity 21 of the scene, whose parent is 20 and whose children
  are 22, 23 and 25. The specification asks for the \<open>Destroy\<close> hooks of components
  10, 11, 12, 13, 14. Each child's \<open>Destroy\<close> ends by removing that child from the
  array that the \<open>forEach\<close> of entity 21 is walking, so the walk visits 22, then at
  index 1 finds 25, and at index 2 finds nothing: entity 23 is never destroyed and
  stays a child of 21.
\<close>

theorem Destroy_skips_children:
  "unfolds_to scene 21 subtree_21 \<and>
   destroy_order subtree_21 =
     [Destroy_call 10, Destroy_call 11, Destroy_call 12, Destroy_call 13, Destroy_call 14] \<and>
   (case Destroy 3 scene 21 of
      Some (Inr w) \<Rightarrow>
        trace w = [Destroy_call 10, Destroy_call 11, Destroy_call 14] \<and>
        children (ents w 21) = [23] \<and> parent (ents w 23) = Some 21 \<and>
        children (ents w 20) = [] \<and> parent (ents w 21) = None
    | _ \<Rightarrow> False)"
  by (simp add: subtree_21_def scene_ents scene_trace numeral_3_eq_3 components_forEach_trace
        children_forEach.simps removeChild_def findIndex_def array_get_def splice1_def store_defs)


end
